theory Spec2Isabelle
  imports Main
begin

section \<open>Package server: starting, serving and shutting down the http server\<close>

text \<open>
  The package (src/server/server.go) starts an http server in one goroutine, a watcher for
  the interrupt signal in a second one, and blocks the calling goroutine on an unbuffered
  channel of errors until one value arrives. The model is an interleaving semantics: a
  state holds the program point of each of the three goroutines, the content of the
  buffered signal channel and a trace of the calls made so far; an event is one atomic
  step of one goroutine, or an answer of the environment (net.Listen, Serve, the operating
  system's signal, serverShutdown). A schedule is a list of events.

  The answers of the environment are not constrained: serverShutdown is a package variable
  and may return anything at any time after it is called, and so may Serve, whether or not
  a shutdown closed its listener. Every behaviour of the real library is among the runs of
  the model. The model does not end the process when Start returns: the goroutines left
  behind go on as long as the schedule says, and what holds of them holds until the
  process ends.
\<close>

subsection \<open>Go values\<close>

text \<open>
  Error values. Each constructor stands for an object of its own, so HOL's equality on
  \<open>error option\<close> is Go's \<open>==\<close> on interface values of type error as far as the package
  uses it (a comparison with the one object http.ErrServerClosed); \<open>None\<close> is nil.
\<close>

datatype error =
    ErrServerClosed
  | ErrorString string
  | WrapError string error
  | OpError string string
  | DeadlineExceeded

text \<open>The method Error() of an error value.\<close>

fun Error_text :: "error \<Rightarrow> string" where
  "Error_text ErrServerClosed = ''http: Server closed''"
| "Error_text (ErrorString m) = m"
| "Error_text (WrapError m e) = m @ '': '' @ Error_text e"
| "Error_text (OpError op m) = op @ '': '' @ m"
| "Error_text DeadlineExceeded = ''context deadline exceeded''"

text \<open>errors.Is: the target is found along the chain of wrapped errors.\<close>

fun errors_Is :: "error \<Rightarrow> error \<Rightarrow> bool" where
  "errors_Is (WrapError m e) target = (WrapError m e = target \<or> errors_Is e target)"
| "errors_Is e target = (e = target)"

text \<open>time.Duration and the clock, both in nanoseconds; a context is its deadline.\<close>

type_synonym Duration = int
type_synonym Time = int

definition Second :: Duration where
  "Second = 1000000000"

datatype Context = Context (deadline: Time)

text \<open>context.WithTimeout(context.Background(), timeout), called when the clock reads now.\<close>

definition context_WithTimeout :: "Time \<Rightarrow> Duration \<Rightarrow> Context" where
  "context_WithTimeout now timeout = Context (now + timeout)"

text \<open>strings.HasPrefix and strings.TrimPrefix, on byte strings.\<close>

definition HasPrefix :: "string \<Rightarrow> string \<Rightarrow> bool" where
  "HasPrefix s pre = (length pre \<le> length s \<and> take (length pre) s = pre)"

definition TrimPrefix :: "string \<Rightarrow> string \<Rightarrow> string" where
  "TrimPrefix s pre = (if HasPrefix s pre then drop (length pre) s else s)"

text \<open>
  The router is opaque to this package; the server value of startServer is its address
  and its handler; a listener is the network and the address it is bound to, and the call
  net.Listen(network, address) is recorded by the listener it asks for.
\<close>

datatype Router = Router nat

datatype Server = Server (Addr: string) (Handler: Router)

datatype Listener = Listener string string

text \<open>The arguments of Start.\<close>

record args =
  mux :: Router
  address :: string
  cert :: string
  key :: string

subsection \<open>Goroutines, calls and states\<close>

datatype goroutine = ServeLoop | Watcher

text \<open>
  What the trace records, in the order it happens: a goroutine started by a go statement,
  the calls into net, net/http, os/signal, context and the logger, and the two ends of a
  communication on the channel \<open>shutdown\<close>: \<open>Send g v\<close> when goroutine \<open>g\<close> reaches its
  statement \<open>shutdown <- v\<close>, \<open>Recv g v\<close> when the receive \<open><-shutdown\<close> of
  waitForServerToClose takes that value.
\<close>

datatype call =
    Go goroutine
  | NetListen Listener
  | LogInfo "(string \<times> string) list" string
  | Serve Server Listener
  | ServeTLS Server Listener string string
  | NotifySignal
  | ServerShutdown Server Context
  | Cancel
  | Send goroutine "error option"
  | Recv goroutine "error option"

text \<open>Program points of the goroutine that calls Start.\<close>

datatype main_pc =
    M_startServer
  | M_notifySignal
  | M_go_watcher
  | M_wait
  | M_return "error option"

text \<open>
  Program points of the goroutine of startServer: not started, about to call
  listenAndServe, inside srv.Serve or srv.ServeTLS, at \<open>shutdown <- err\<close>, finished.
\<close>

datatype serve_pc =
    S_idle
  | S_listen
  | S_serving
  | S_send "error option"
  | S_exit

text \<open>
  Program points of the goroutine of shutdownOnInterruptSignal: not started, at
  \<open><-interrupt\<close> (with the timeout it was given), inside serverShutdown, at
  \<open>shutdown <- err\<close> (err is not nil there), finished.
\<close>

datatype watcher_pc =
    W_idle
  | W_recv Duration
  | W_shutdown
  | W_send error
  | W_exit

record state =
  main :: main_pc
  serve :: serve_pc
  watcher :: watcher_pc
  notified :: bool
  interrupt :: nat
  trace :: "call list"

definition init :: state where
  "init = \<lparr>main = M_startServer, serve = S_idle, watcher = W_idle, notified = False,
            interrupt = 0, trace = []\<rparr>"

text \<open>
  Events: the goroutine of Start runs its next statement; net.Listen returns its error
  (nil when the listener is bound); Serve or ServeTLS returns; the operating system raises
  os.Interrupt; the watcher's receive on \<open>interrupt\<close> completes (with what the clock
  reads when context.WithTimeout is called); serverShutdown returns; the send of a
  goroutine on \<open>shutdown\<close> meets the receive of waitForServerToClose.
\<close>

datatype event =
    MainStep
  | ListenReturns "error option"
  | ServeReturns "error option"
  | Signal
  | WatcherWakes Time
  | ShutdownReturns "error option"
  | Handoff goroutine

subsection \<open>The functions of the package\<close>

text \<open>
  waitForServerToClose (lines 106-112), applied to the value its receive \<open><-shutdown\<close>
  took.
\<close>

definition waitForServerToClose :: "error option \<Rightarrow> error option" where
  "waitForServerToClose err = (if err = Some ErrServerClosed then None else err)"

text \<open>
  startServer (lines 47-63): the server value, and the go statement. The channel
  \<open>shutdown\<close> is made without a buffer, so it has no content of its own in the state.
\<close>

definition new_server :: "args \<Rightarrow> Server" where
  "new_server a = Server (address a) (mux a)"

definition startServer :: "args \<Rightarrow> state \<Rightarrow> state" where
  "startServer a s = s\<lparr>main := M_notifySignal, serve := S_listen, trace := trace s @ [Go ServeLoop]\<rparr>"

text \<open>
  shutdownOnInterruptSignal (lines 91-104): the channel \<open>interrupt\<close> of capacity 1 is
  subscribed to os.Interrupt, then the watcher is started with the timeout.
\<close>

definition shutdownOnInterruptSignal_notify :: "state \<Rightarrow> state" where
  "shutdownOnInterruptSignal_notify s =
     s\<lparr>main := M_go_watcher, notified := True, trace := trace s @ [NotifySignal]\<rparr>"

definition shutdownOnInterruptSignal_go :: "Duration \<Rightarrow> state \<Rightarrow> state" where
  "shutdownOnInterruptSignal_go timeout s =
     s\<lparr>main := M_wait, watcher := W_recv timeout, trace := trace s @ [Go Watcher]\<rparr>"

text \<open>
  Start (lines 30-37), one statement at a time: startServer, shutdownOnInterruptSignal
  with 2*time.Second, then waitForServerToClose, which blocks in its receive (it has no
  step of its own: see \<open>handoff\<close>).
\<close>

definition Start_step :: "args \<Rightarrow> state \<Rightarrow> state option" where
  "Start_step a s =
     (case main s of
        M_startServer \<Rightarrow> Some (startServer a s)
      | M_notifySignal \<Rightarrow> Some (shutdownOnInterruptSignal_notify s)
      | M_go_watcher \<Rightarrow> Some (shutdownOnInterruptSignal_go (2 * Second) s)
      | M_wait \<Rightarrow> None
      | M_return r \<Rightarrow> None)"

text \<open>
  listenAndServe (lines 66-88), first half: the listener asked of net.Listen, by network
  and address.
\<close>

definition listenAndServe_listen :: "string \<Rightarrow> Listener" where
  "listenAndServe_listen addr =
     (if HasPrefix addr ''unix:'' then Listener ''unix'' (TrimPrefix addr ''unix:'')
      else Listener ''tcp'' addr)"

text \<open>listenAndServe, second half: the calls made once the listener is bound.\<close>

definition listenAndServe_serve :: "Server \<Rightarrow> Listener \<Rightarrow> string \<Rightarrow> string \<Rightarrow> string \<Rightarrow> call list" where
  "listenAndServe_serve srv listener addr crt ky =
     (if crt \<noteq> [] \<or> ky \<noteq> []
      then [LogInfo [(''addr'', addr)] ''Start HTTP with tls'', ServeTLS srv listener crt ky]
      else [LogInfo [(''addr'', addr)] ''Start HTTP'', Serve srv listener])"

text \<open>
  The goroutine of startServer when net.Listen returns err: with an error, listenAndServe
  returns it and the goroutine is at \<open>shutdown <- err\<close>; without, it is inside Serve.
\<close>

definition listen_returns :: "args \<Rightarrow> error option \<Rightarrow> state \<Rightarrow> state option" where
  "listen_returns a err s =
     (if serve s = S_listen then
        (case err of
           Some e \<Rightarrow>
             Some (s\<lparr>serve := S_send (Some e),
                     trace := trace s @
                       [NetListen (listenAndServe_listen (address a)), Send ServeLoop (Some e)]\<rparr>)
         | None \<Rightarrow>
             Some (s\<lparr>serve := S_serving,
                     trace := trace s @
                       NetListen (listenAndServe_listen (address a)) #
                       listenAndServe_serve (new_server a) (listenAndServe_listen (address a))
                         (address a) (cert a) (key a)\<rparr>))
      else None)"

text \<open>Serve or ServeTLS returns err: listenAndServe returns it, the goroutine sends it.\<close>

definition serve_returns :: "error option \<Rightarrow> state \<Rightarrow> state option" where
  "serve_returns err s =
     (if serve s = S_serving
      then Some (s\<lparr>serve := S_send err, trace := trace s @ [Send ServeLoop err]\<rparr>)
      else None)"

text \<open>
  The operating system raises os.Interrupt. Once subscribed, package signal puts it into
  \<open>interrupt\<close> without blocking: a signal that finds the buffer full is dropped. Before
  the subscription the signal ends the process, which ends the model's run.
\<close>

definition signal :: "state \<Rightarrow> state option" where
  "signal s =
     (if notified s
      then Some (if interrupt s < 1 then s\<lparr>interrupt := interrupt s + 1\<rparr> else s)
      else None)"

text \<open>
  The watcher's \<open><-interrupt\<close> takes a signal (lines 96-100): it logs, derives the
  context from the timeout and the clock, which reads now, and calls serverShutdown.
\<close>

definition watcher_wakes :: "args \<Rightarrow> Time \<Rightarrow> state \<Rightarrow> state option" where
  "watcher_wakes a now s =
     (case watcher s of
        W_recv timeout \<Rightarrow>
          (if 0 < interrupt s
           then Some (s\<lparr>watcher := W_shutdown, interrupt := interrupt s - 1,
                        trace := trace s @
                          [LogInfo [] ''Received interrupt. Shutting down...'',
                           ServerShutdown (new_server a) (context_WithTimeout now timeout)]\<rparr>)
           else None)
      | _ \<Rightarrow> None)"

text \<open>
  serverShutdown returns err (lines 100-102): if it is not nil the watcher is at
  \<open>shutdown <- err\<close>, otherwise the function returns and the deferred cancel runs.
\<close>

definition shutdown_returns :: "error option \<Rightarrow> state \<Rightarrow> state option" where
  "shutdown_returns err s =
     (if watcher s = W_shutdown then
        (case err of
           Some e \<Rightarrow> Some (s\<lparr>watcher := W_send e, trace := trace s @ [Send Watcher (Some e)]\<rparr>)
         | None \<Rightarrow> Some (s\<lparr>watcher := W_exit, trace := trace s @ [Cancel]\<rparr>))
      else None)"

text \<open>
  A communication on the unbuffered channel \<open>shutdown\<close>: it happens when the receiver is
  in waitForServerToClose and goroutine g is at its send. The receiver returns from Start;
  the sender goes on (the watcher runs its deferred cancel) and finishes.
\<close>

definition handoff :: "goroutine \<Rightarrow> state \<Rightarrow> state option" where
  "handoff g s =
     (if main s = M_wait then
        (case g of
           ServeLoop \<Rightarrow>
             (case serve s of
                S_send err \<Rightarrow>
                  Some (s\<lparr>main := M_return (waitForServerToClose err), serve := S_exit,
                          trace := trace s @ [Recv ServeLoop err]\<rparr>)
              | _ \<Rightarrow> None)
         | Watcher \<Rightarrow>
             (case watcher s of
                W_send e \<Rightarrow>
                  Some (s\<lparr>main := M_return (waitForServerToClose (Some e)), watcher := W_exit,
                          trace := trace s @ [Recv Watcher (Some e), Cancel]\<rparr>)
              | _ \<Rightarrow> None))
      else None)"

subsection \<open>Schedules\<close>

fun step :: "args \<Rightarrow> event \<Rightarrow> state \<Rightarrow> state option" where
  "step a MainStep s = Start_step a s"
| "step a (ListenReturns err) s = listen_returns a err s"
| "step a (ServeReturns err) s = serve_returns err s"
| "step a Signal s = signal s"
| "step a (WatcherWakes now) s = watcher_wakes a now s"
| "step a (ShutdownReturns err) s = shutdown_returns err s"
| "step a (Handoff g) s = handoff g s"

text \<open>A schedule runs while each of its events is enabled.\<close>

fun run :: "args \<Rightarrow> event list \<Rightarrow> state \<Rightarrow> state option" where
  "run a [] s = Some s"
| "run a (e # es) s = (case step a e s of None \<Rightarrow> None | Some s' \<Rightarrow> run a es s')"

text \<open>Start under a schedule: the state reached, if the schedule is one of the program.\<close>

definition Start :: "args \<Rightarrow> event list \<Rightarrow> state option" where
  "Start a es = run a es init"

subsection \<open>Observations on schedules and traces\<close>

text \<open>
  What a schedule holds of each kind of answer, in order: the times at which the watcher
  took a signal, and the values returned by serverShutdown, net.Listen and Serve.
\<close>

fun wake_of :: "event \<Rightarrow> Time list" where
  "wake_of (WatcherWakes t) = [t]"
| "wake_of _ = []"

definition wakes :: "event list \<Rightarrow> Time list" where
  "wakes es = concat (map wake_of es)"

fun shutdown_result_of :: "event \<Rightarrow> error option list" where
  "shutdown_result_of (ShutdownReturns r) = [r]"
| "shutdown_result_of _ = []"

definition shutdown_results :: "event list \<Rightarrow> error option list" where
  "shutdown_results es = concat (map shutdown_result_of es)"

fun listen_result_of :: "event \<Rightarrow> error option list" where
  "listen_result_of (ListenReturns r) = [r]"
| "listen_result_of _ = []"

definition listen_results :: "event list \<Rightarrow> error option list" where
  "listen_results es = concat (map listen_result_of es)"

text \<open>The values listenAndServe returns: the error of net.Listen, or what Serve returns.\<close>

fun outcome_of :: "event \<Rightarrow> error option list" where
  "outcome_of (ListenReturns (Some e)) = [Some e]"
| "outcome_of (ServeReturns v) = [v]"
| "outcome_of _ = []"

definition serve_outcomes :: "event list \<Rightarrow> error option list" where
  "serve_outcomes es = concat (map outcome_of es)"

text \<open>
  What a trace holds of each kind of call, in order: the calls of serverShutdown, of
  net.Listen, of Serve and ServeTLS, the values a goroutine sent on \<open>shutdown\<close>, and the
  values received from it.
\<close>

fun shutdown_call_of :: "call \<Rightarrow> (Server \<times> Context) list" where
  "shutdown_call_of (ServerShutdown srv ctx) = [(srv, ctx)]"
| "shutdown_call_of _ = []"

definition shutdown_calls :: "call list \<Rightarrow> (Server \<times> Context) list" where
  "shutdown_calls tr = concat (map shutdown_call_of tr)"

fun listen_call_of :: "call \<Rightarrow> Listener list" where
  "listen_call_of (NetListen l) = [l]"
| "listen_call_of _ = []"

definition listen_calls :: "call list \<Rightarrow> Listener list" where
  "listen_calls tr = concat (map listen_call_of tr)"

fun serving_call_of :: "call \<Rightarrow> call list" where
  "serving_call_of (Serve srv l) = [Serve srv l]"
| "serving_call_of (ServeTLS srv l c k) = [ServeTLS srv l c k]"
| "serving_call_of _ = []"

definition serving_calls :: "call list \<Rightarrow> call list" where
  "serving_calls tr = concat (map serving_call_of tr)"

fun send_of :: "goroutine \<Rightarrow> call \<Rightarrow> error option list" where
  "send_of g (Send g' v) = (if g' = g then [v] else [])"
| "send_of g _ = []"

definition sends :: "goroutine \<Rightarrow> call list \<Rightarrow> error option list" where
  "sends g tr = concat (map (send_of g) tr)"

fun recv_of :: "call \<Rightarrow> (goroutine \<times> error option) list" where
  "recv_of (Recv g v) = [(g, v)]"
| "recv_of _ = []"

definition recvs :: "call list \<Rightarrow> (goroutine \<times> error option) list" where
  "recvs tr = concat (map recv_of tr)"

subsection \<open>Example runs\<close>

text \<open>
  The arguments of the scenarios used below: a unix socket without TLS, a TCP address
  without TLS, and a TCP address with a certificate path only.
\<close>

definition unix_args :: args where
  "unix_args = \<lparr>mux = Router 0, address = ''unix:/tmp/svc.sock'', cert = [], key = []\<rparr>"

definition tcp_args :: args where
  "tcp_args = \<lparr>mux = Router 0, address = ''127.0.0.1:0'', cert = [], key = []\<rparr>"

definition tls_args :: args where
  "tls_args = \<lparr>mux = Router 0, address = ''127.0.0.1:5050'', cert = ''server.crt'', key = []\<rparr>"

text \<open>
  The schedules: net.Listen fails before the caller goes on; an interrupt arrives, Serve
  returns http.ErrServerClosed, Start returns, and only then serverShutdown gives up at its
  deadline; Serve fails without any interrupt; one interrupt, then two more and a
  successful serverShutdown; or, after the one interrupt, a serverShutdown that fails while
  Serve is still running.
\<close>

definition bind_error :: error where
  "bind_error = OpError ''listen'' ''bind: address already in use''"

definition bind_fails :: "event list" where
  "bind_fails = [MainStep, ListenReturns (Some bind_error), MainStep, MainStep, Handoff ServeLoop]"

definition interrupt_then_timeout :: "event list" where
  "interrupt_then_timeout =
     [MainStep, MainStep, MainStep, ListenReturns None, Signal, WatcherWakes 100,
      ServeReturns (Some ErrServerClosed), Handoff ServeLoop,
      ShutdownReturns (Some DeadlineExceeded)]"

definition serve_fails :: "event list" where
  "serve_fails = [MainStep, MainStep, MainStep, ListenReturns None,
      ServeReturns (Some (ErrorString ''accept: too many open files''))]"

definition first_interrupt :: "event list" where
  "first_interrupt = [MainStep, MainStep, MainStep, ListenReturns None, Signal, WatcherWakes 100]"

definition more_interrupts :: "event list" where
  "more_interrupts = [Signal, Signal, ShutdownReturns None]"


section \<open>Proofs\<close>

subsection \<open>Steps and schedules\<close>

lemmas step_defs = Start_step_def startServer_def shutdownOnInterruptSignal_notify_def
  shutdownOnInterruptSignal_go_def listen_returns_def serve_returns_def signal_def
  watcher_wakes_def shutdown_returns_def handoff_def

lemmas run_defs = Start_def init_def step_defs listenAndServe_listen_def
  listenAndServe_serve_def HasPrefix_def TrimPrefix_def new_server_def
  context_WithTimeout_def waitForServerToClose_def Second_def

lemma proj_Nil [simp]:
  "wakes [] = []" "shutdown_results [] = []" "listen_results [] = []" "serve_outcomes [] = []"
  "shutdown_calls [] = []" "listen_calls [] = []" "serving_calls [] = []" "sends g [] = []"
  "recvs [] = []"
  by (simp_all add: wakes_def shutdown_results_def listen_results_def serve_outcomes_def
      shutdown_calls_def listen_calls_def serving_calls_def sends_def recvs_def)

lemma proj_append [simp]:
  "wakes (es @ es') = wakes es @ wakes es'"
  "shutdown_results (es @ es') = shutdown_results es @ shutdown_results es'"
  "listen_results (es @ es') = listen_results es @ listen_results es'"
  "serve_outcomes (es @ es') = serve_outcomes es @ serve_outcomes es'"
  "shutdown_calls (tr @ tr') = shutdown_calls tr @ shutdown_calls tr'"
  "listen_calls (tr @ tr') = listen_calls tr @ listen_calls tr'"
  "serving_calls (tr @ tr') = serving_calls tr @ serving_calls tr'"
  "sends g (tr @ tr') = sends g tr @ sends g tr'"
  "recvs (tr @ tr') = recvs tr @ recvs tr'"
  by (simp_all add: wakes_def shutdown_results_def listen_results_def serve_outcomes_def
      shutdown_calls_def listen_calls_def serving_calls_def sends_def recvs_def)

lemma proj_Cons [simp]:
  "wakes (e # es) = wake_of e @ wakes es"
  "shutdown_results (e # es) = shutdown_result_of e @ shutdown_results es"
  "listen_results (e # es) = listen_result_of e @ listen_results es"
  "serve_outcomes (e # es) = outcome_of e @ serve_outcomes es"
  "shutdown_calls (c # tr) = shutdown_call_of c @ shutdown_calls tr"
  "listen_calls (c # tr) = listen_call_of c @ listen_calls tr"
  "serving_calls (c # tr) = serving_call_of c @ serving_calls tr"
  "sends g (c # tr) = send_of g c @ sends g tr"
  "recvs (c # tr) = recv_of c @ recvs tr"
  by (simp_all add: wakes_def shutdown_results_def listen_results_def serve_outcomes_def
      shutdown_calls_def listen_calls_def serving_calls_def sends_def recvs_def)

lemma proj_set:
  "t \<in> set (wakes es) \<longleftrightarrow> WatcherWakes t \<in> set es"
  "r \<in> set (shutdown_results es) \<longleftrightarrow> ShutdownReturns r \<in> set es"
  "r \<in> set (listen_results es) \<longleftrightarrow> ListenReturns r \<in> set es"
  "v \<in> set (sends g tr) \<longleftrightarrow> Send g v \<in> set tr"
  "(g, v) \<in> set (recvs tr) \<longleftrightarrow> Recv g v \<in> set tr"
  "l \<in> set (listen_calls tr) \<longleftrightarrow> NetListen l \<in> set tr"
  "(srv, ctx) \<in> set (shutdown_calls tr) \<longleftrightarrow> ServerShutdown srv ctx \<in> set tr"
proof -
  show "t \<in> set (wakes es) \<longleftrightarrow> WatcherWakes t \<in> set es"
  proof (induction es)
    case (Cons e es) then show ?case by (cases e) auto
  qed simp
  show "r \<in> set (shutdown_results es) \<longleftrightarrow> ShutdownReturns r \<in> set es"
  proof (induction es)
    case (Cons e es) then show ?case by (cases e) auto
  qed simp
  show "r \<in> set (listen_results es) \<longleftrightarrow> ListenReturns r \<in> set es"
  proof (induction es)
    case (Cons e es) then show ?case by (cases e) auto
  qed simp
  show "v \<in> set (sends g tr) \<longleftrightarrow> Send g v \<in> set tr"
  proof (induction tr)
    case (Cons c tr) then show ?case by (cases c) auto
  qed simp
  show "(g, v) \<in> set (recvs tr) \<longleftrightarrow> Recv g v \<in> set tr"
  proof (induction tr)
    case (Cons c tr) then show ?case by (cases c) auto
  qed simp
  show "l \<in> set (listen_calls tr) \<longleftrightarrow> NetListen l \<in> set tr"
  proof (induction tr)
    case (Cons c tr) then show ?case by (cases c) auto
  qed simp
  show "(srv, ctx) \<in> set (shutdown_calls tr) \<longleftrightarrow> ServerShutdown srv ctx \<in> set tr"
  proof (induction tr)
    case (Cons c tr) then show ?case by (cases c) auto
  qed simp
qed

lemma outcome_set:
  "v \<in> set (serve_outcomes es) \<longleftrightarrow> ServeReturns v \<in> set es \<or> (\<exists>e. v = Some e \<and> ListenReturns (Some e) \<in> set es)"
proof (induction es)
  case Nil
  show ?case by simp
next
  case (Cons e es)
  show ?case
  proof (cases e)
    case (ListenReturns r)
    with Cons show ?thesis by (cases r) auto
  qed (use Cons in auto)
qed

lemma run_snoc: "run a (es @ [e]) s = (case run a es s of None \<Rightarrow> None | Some s' \<Rightarrow> step a e s')"
  by (induction es arbitrary: s) (auto split: option.splits)

lemma run_append: "run a (es @ es') s = (case run a es s of None \<Rightarrow> None | Some s' \<Rightarrow> run a es' s')"
  by (induction es arbitrary: s) (auto split: option.splits)

lemma Start_append:
  assumes "Start a es = Some s"
  shows "Start a (es @ es') = run a es' s"
  using assms by (simp add: Start_def run_append)

text \<open>
  Induction over the schedules of Start: a property of the initial state that every
  enabled event preserves holds of every state Start reaches.
\<close>

lemma Start_induct [consumes 1, case_names init step]:
  assumes "Start a es = Some s"
    and "P [] init"
    and "\<And>es s e s'. Start a es = Some s \<Longrightarrow> P es s \<Longrightarrow> step a e s = Some s' \<Longrightarrow> P (es @ [e]) s'"
  shows "P es s"
  using assms(1)
proof (induction es arbitrary: s rule: rev_induct)
  case Nil
  then show ?case using assms(2) by (simp add: Start_def)
next
  case (snoc e es)
  from snoc.prems obtain s0 where s0: "Start a es = Some s0" and st: "step a e s0 = Some s"
    by (auto simp: Start_def run_snoc split: option.splits)
  from assms(3)[OF s0 snoc.IH[OF s0] st] show ?case .
qed

text \<open>
  What each event does when it is enabled, read off the definitions; \<open>step_cases\<close> is
  the case analysis the invariants below go through.
\<close>

lemma Start_step_cases:
  assumes "Start_step a s = Some s'"
  shows "(main s = M_startServer \<and> s' = s\<lparr>main := M_notifySignal, serve := S_listen, trace := trace s @ [Go ServeLoop]\<rparr>)
       \<or> (main s = M_notifySignal \<and> s' = s\<lparr>main := M_go_watcher, notified := True, trace := trace s @ [NotifySignal]\<rparr>)
       \<or> (main s = M_go_watcher \<and> s' = s\<lparr>main := M_wait, watcher := W_recv (2 * Second), trace := trace s @ [Go Watcher]\<rparr>)"
  using assms by (cases "main s") (simp_all add: step_defs)

lemma listen_returns_cases:
  assumes "listen_returns a r s = Some s'"
  shows "serve s = S_listen \<and>
     ((\<exists>e. r = Some e \<and> s' = s\<lparr>serve := S_send (Some e),
                     trace := trace s @
                       [NetListen (listenAndServe_listen (address a)), Send ServeLoop (Some e)]\<rparr>)
      \<or> (r = None \<and> s' = s\<lparr>serve := S_serving,
                     trace := trace s @
                       NetListen (listenAndServe_listen (address a)) #
                       listenAndServe_serve (new_server a) (listenAndServe_listen (address a))
                         (address a) (cert a) (key a)\<rparr>))"
  using assms by (cases r) (simp_all add: step_defs split: if_splits)

lemma serve_returns_cases:
  assumes "serve_returns r s = Some s'"
  shows "serve s = S_serving \<and> s' = s\<lparr>serve := S_send r, trace := trace s @ [Send ServeLoop r]\<rparr>"
  using assms by (simp add: step_defs split: if_splits)

lemma signal_cases:
  assumes "signal s = Some s'"
  shows "notified s \<and> ((interrupt s = 0 \<and> s' = s\<lparr>interrupt := 1\<rparr>) \<or> (0 < interrupt s \<and> s' = s))"
  using assms by (auto simp add: step_defs split: if_splits)

lemma watcher_wakes_cases:
  assumes "watcher_wakes a now s = Some s'"
  shows "\<exists>d. watcher s = W_recv d \<and> 0 < interrupt s \<and>
     s' = s\<lparr>watcher := W_shutdown, interrupt := interrupt s - 1,
                        trace := trace s @
                          [LogInfo [] ''Received interrupt. Shutting down...'',
                           ServerShutdown (new_server a) (context_WithTimeout now d)]\<rparr>"
  using assms by (cases "watcher s") (simp_all add: step_defs split: if_splits)

lemma shutdown_returns_cases:
  assumes "shutdown_returns r s = Some s'"
  shows "watcher s = W_shutdown \<and>
     ((\<exists>e. r = Some e \<and> s' = s\<lparr>watcher := W_send e, trace := trace s @ [Send Watcher (Some e)]\<rparr>)
      \<or> (r = None \<and> s' = s\<lparr>watcher := W_exit, trace := trace s @ [Cancel]\<rparr>))"
  using assms by (cases r) (simp_all add: step_defs split: if_splits)

lemma handoff_cases:
  assumes "handoff g s = Some s'"
  shows "main s = M_wait \<and>
     ((\<exists>v. g = ServeLoop \<and> serve s = S_send v \<and>
           s' = s\<lparr>main := M_return (waitForServerToClose v), serve := S_exit,
                          trace := trace s @ [Recv ServeLoop v]\<rparr>)
      \<or> (\<exists>e. g = Watcher \<and> watcher s = W_send e \<and>
           s' = s\<lparr>main := M_return (waitForServerToClose (Some e)), watcher := W_exit,
                          trace := trace s @ [Recv Watcher (Some e), Cancel]\<rparr>))"
proof (cases g)
  case ServeLoop
  with assms show ?thesis by (cases "serve s") (simp_all add: step_defs split: if_splits)
next
  case Watcher
  with assms show ?thesis by (cases "watcher s") (simp_all add: step_defs split: if_splits)
qed

lemma step_cases [consumes 1, case_names startServer notify go_watcher listen_err listen_ok
    serve_ret signal_kept signal_dropped wake shutdown_err shutdown_ok handoff_serve handoff_watcher]:
  assumes "step a e s = Some s'"
  obtains
    "e = MainStep" "main s = M_startServer"
      "s' = s\<lparr>main := M_notifySignal, serve := S_listen, trace := trace s @ [Go ServeLoop]\<rparr>"
  | "e = MainStep" "main s = M_notifySignal"
      "s' = s\<lparr>main := M_go_watcher, notified := True, trace := trace s @ [NotifySignal]\<rparr>"
  | "e = MainStep" "main s = M_go_watcher"
      "s' = s\<lparr>main := M_wait, watcher := W_recv (2 * Second), trace := trace s @ [Go Watcher]\<rparr>"
  | err where "e = ListenReturns (Some err)" "serve s = S_listen"
      "s' = s\<lparr>serve := S_send (Some err),
               trace := trace s @
                 [NetListen (listenAndServe_listen (address a)), Send ServeLoop (Some err)]\<rparr>"
  | "e = ListenReturns None" "serve s = S_listen"
      "s' = s\<lparr>serve := S_serving,
               trace := trace s @
                 NetListen (listenAndServe_listen (address a)) #
                 listenAndServe_serve (new_server a) (listenAndServe_listen (address a))
                   (address a) (cert a) (key a)\<rparr>"
  | v where "e = ServeReturns v" "serve s = S_serving"
      "s' = s\<lparr>serve := S_send v, trace := trace s @ [Send ServeLoop v]\<rparr>"
  | "e = Signal" "notified s" "interrupt s = 0" "s' = s\<lparr>interrupt := 1\<rparr>"
  | "e = Signal" "notified s" "0 < interrupt s" "s' = s"
  | now d where "e = WatcherWakes now" "watcher s = W_recv d" "0 < interrupt s"
      "s' = s\<lparr>watcher := W_shutdown, interrupt := interrupt s - 1,
               trace := trace s @
                 [LogInfo [] ''Received interrupt. Shutting down...'',
                  ServerShutdown (new_server a) (context_WithTimeout now d)]\<rparr>"
  | err where "e = ShutdownReturns (Some err)" "watcher s = W_shutdown"
      "s' = s\<lparr>watcher := W_send err, trace := trace s @ [Send Watcher (Some err)]\<rparr>"
  | "e = ShutdownReturns None" "watcher s = W_shutdown"
      "s' = s\<lparr>watcher := W_exit, trace := trace s @ [Cancel]\<rparr>"
  | v where "e = Handoff ServeLoop" "main s = M_wait" "serve s = S_send v"
      "s' = s\<lparr>main := M_return (waitForServerToClose v), serve := S_exit,
               trace := trace s @ [Recv ServeLoop v]\<rparr>"
  | err where "e = Handoff Watcher" "main s = M_wait" "watcher s = W_send err"
      "s' = s\<lparr>main := M_return (waitForServerToClose (Some err)), watcher := W_exit,
               trace := trace s @ [Recv Watcher (Some err), Cancel]\<rparr>"
proof (cases e)
  case MainStep
  with assms Start_step_cases[of a s s'] that(1,2,3) show ?thesis by auto
next
  case (ListenReturns r)
  with assms listen_returns_cases[of a r s s'] that(4,5) show ?thesis by auto
next
  case (ServeReturns r)
  with assms serve_returns_cases[of r s s'] that(6) show ?thesis by auto
next
  case Signal
  with assms signal_cases[of s s'] that(7,8) show ?thesis by auto
next
  case (WatcherWakes t)
  with assms watcher_wakes_cases[of a t s s'] that(9) show ?thesis by auto
next
  case (ShutdownReturns r)
  with assms shutdown_returns_cases[of r s s'] that(10,11) show ?thesis by auto
next
  case (Handoff g)
  with assms handoff_cases[of g s s'] that(12,13) show ?thesis by auto
qed

subsection \<open>Invariants\<close>

text \<open>
  The program points of the goroutines against each other, the subscription and the
  signal buffer.
\<close>

lemma pc_inv:
  assumes "Start a es = Some s"
  shows "(serve s = S_idle \<longleftrightarrow> main s = M_startServer)
       \<and> (watcher s = W_idle \<longleftrightarrow> main s = M_startServer \<or> main s = M_notifySignal \<or> main s = M_go_watcher)
       \<and> (notified s \<longleftrightarrow> main s \<noteq> M_startServer \<and> main s \<noteq> M_notifySignal)
       \<and> interrupt s \<le> 1
       \<and> (\<forall>d. watcher s = W_recv d \<longrightarrow> d = 2 * Second)"
  using assms
proof (induction rule: Start_induct)
  case init
  show ?case by (simp add: init_def)
next
  case (step es s e s')
  from step.hyps(2) step.IH show ?case
    by (cases rule: step_cases) auto
qed

text \<open>
  The program point of each goroutine against the answers the schedule has given it.
\<close>

lemma watcher_pc_inv:
  assumes "Start a es = Some s"
  shows "case watcher s of
           W_idle \<Rightarrow> wakes es = [] \<and> shutdown_results es = []
         | W_recv d \<Rightarrow> wakes es = [] \<and> shutdown_results es = []
         | W_shutdown \<Rightarrow> length (wakes es) = 1 \<and> shutdown_results es = []
         | W_send e \<Rightarrow> length (wakes es) = 1 \<and> shutdown_results es = [Some e]
         | W_exit \<Rightarrow> length (wakes es) = 1 \<and> length (shutdown_results es) = 1"
  using assms
proof (induction rule: Start_induct)
  case init
  show ?case by (simp add: init_def)
next
  case (step es s e s')
  from step.hyps(2) step.IH pc_inv[OF step.hyps(1)] show ?case
    by (cases rule: step_cases) (simp_all split: watcher_pc.splits)
qed

lemma serve_pc_inv:
  assumes "Start a es = Some s"
  shows "case serve s of
           S_idle \<Rightarrow> listen_results es = [] \<and> serve_outcomes es = []
         | S_listen \<Rightarrow> listen_results es = [] \<and> serve_outcomes es = []
         | S_serving \<Rightarrow> listen_results es = [None] \<and> serve_outcomes es = []
         | S_send v \<Rightarrow> length (listen_results es) = 1 \<and> serve_outcomes es = [v]
         | S_exit \<Rightarrow> length (listen_results es) = 1 \<and> length (serve_outcomes es) = 1"
  using assms
proof (induction rule: Start_induct)
  case init
  show ?case by (simp add: init_def)
next
  case (step es s e s')
  from step.hyps(2) step.IH pc_inv[OF step.hyps(1)] show ?case
    by (cases rule: step_cases) (simp_all split: serve_pc.splits)
qed

lemma at_most_one_listen:
  assumes "Start a es = Some s"
  shows "length (listen_results es) \<le> 1"
  using serve_pc_inv[OF assms] by (cases "serve s") simp_all

lemma at_most_one_wake:
  assumes "Start a es = Some s"
  shows "length (wakes es) \<le> 1 \<and> length (shutdown_results es) \<le> 1"
  using watcher_pc_inv[OF assms] by (cases "watcher s") simp_all

lemma outcome_pc:
  assumes "Start a es = Some s" and "serve_outcomes es \<noteq> []"
  shows "\<exists>v. serve_outcomes es = [v] \<and> (serve s = S_send v \<or> serve s = S_exit)"
proof -
  from serve_pc_inv[OF assms(1)] assms(2)
  have "length (serve_outcomes es) = 1 \<and> ((\<exists>v. serve s = S_send v \<and> serve_outcomes es = [v]) \<or> serve s = S_exit)"
    by (cases "serve s") simp_all
  then show ?thesis
    by (cases "serve_outcomes es") auto
qed

lemma listen_error_inv:
  assumes "Start a es = Some s"
  shows "Some e \<in> set (listen_results es) \<longrightarrow> serve_outcomes es = [Some e]"
  using assms
proof (induction rule: Start_induct)
  case init
  show ?case by simp
next
  case (step es s e' s')
  from step.hyps(2) step.IH serve_pc_inv[OF step.hyps(1)] show ?case
    by (cases rule: step_cases) auto
qed

text \<open>
  The calls in the trace against the schedule.
\<close>

lemma shutdown_calls_inv:
  assumes "Start a es = Some s"
  shows "shutdown_calls (trace s) = map (\<lambda>t. (new_server a, context_WithTimeout t (2 * Second))) (wakes es)"
  using assms
proof (induction rule: Start_induct)
  case init
  show ?case by (simp add: init_def)
next
  case (step es s e s')
  from step.hyps(2) step.IH pc_inv[OF step.hyps(1)] show ?case
    by (cases rule: step_cases) (simp_all add: listenAndServe_serve_def)
qed

lemma listen_calls_inv:
  assumes "Start a es = Some s"
  shows "listen_calls (trace s) = map (\<lambda>r. listenAndServe_listen (address a)) (listen_results es)"
  using assms
proof (induction rule: Start_induct)
  case init
  show ?case by (simp add: init_def)
next
  case (step es s e s')
  from step.hyps(2) step.IH show ?case
    by (cases rule: step_cases) (simp_all add: listenAndServe_serve_def)
qed

lemma serving_calls_inv:
  assumes "Start a es = Some s"
  shows "serving_calls (trace s) =
           (if None \<in> set (listen_results es)
            then [if cert a \<noteq> [] \<or> key a \<noteq> []
                  then ServeTLS (new_server a) (listenAndServe_listen (address a)) (cert a) (key a)
                  else Serve (new_server a) (listenAndServe_listen (address a))]
            else [])"
  using assms
proof (induction rule: Start_induct)
  case init
  show ?case by (simp add: init_def)
next
  case (step es s e s')
  from step.hyps(2) step.IH serve_pc_inv[OF step.hyps(1)] show ?case
    by (cases rule: step_cases) (simp_all add: listenAndServe_serve_def)
qed

lemma sends_serve_inv:
  assumes "Start a es = Some s"
  shows "sends ServeLoop (trace s) = serve_outcomes es"
  using assms
proof (induction rule: Start_induct)
  case init
  show ?case by (simp add: init_def)
next
  case (step es s e s')
  from step.hyps(2) step.IH show ?case
    by (cases rule: step_cases) (simp_all add: listenAndServe_serve_def)
qed

lemma sends_watcher_inv:
  assumes "Start a es = Some s"
  shows "sends Watcher (trace s) = filter (\<lambda>r. r \<noteq> None) (shutdown_results es)"
  using assms
proof (induction rule: Start_induct)
  case init
  show ?case by (simp add: init_def)
next
  case (step es s e s')
  from step.hyps(2) step.IH show ?case
    by (cases rule: step_cases) (simp_all add: listenAndServe_serve_def)
qed

lemma signal_inv:
  assumes "Start a es = Some s"
  shows "(0 < interrupt s \<longrightarrow> Signal \<in> set es) \<and> (wakes es \<noteq> [] \<longrightarrow> Signal \<in> set es)"
  using assms
proof (induction rule: Start_induct)
  case init
  show ?case by (simp add: init_def)
next
  case (step es s e s')
  from step.hyps(2) step.IH show ?case
    by (cases rule: step_cases) auto
qed

lemma trace_head_inv:
  assumes "Start a es = Some s"
  shows "if main s = M_startServer then trace s = [] else (\<exists>tr. trace s = Go ServeLoop # tr)"
  using assms
proof (induction rule: Start_induct)
  case init
  show ?case by (simp add: init_def)
next
  case (step es s e s')
  from step.hyps(2) step.IH pc_inv[OF step.hyps(1)] show ?case
    by (cases rule: step_cases) auto
qed

text \<open>
  The receive of waitForServerToClose: before Start returns nothing has been received;
  once it has returned, exactly one value has, from exactly one of the two senders, and
  that sender has finished.
\<close>

lemma main_inv:
  assumes "Start a es = Some s"
  shows "case main s of
           M_return r \<Rightarrow>
             (\<exists>v. recvs (trace s) = [(ServeLoop, v)] \<and> r = waitForServerToClose v \<and>
                  serve s = S_exit \<and> serve_outcomes es = [v] \<and>
                  (watcher s = W_exit \<longrightarrow> shutdown_results es = [None]))
           \<or> (\<exists>e. recvs (trace s) = [(Watcher, Some e)] \<and> r = waitForServerToClose (Some e) \<and>
                  watcher s = W_exit \<and> shutdown_results es = [Some e] \<and> serve s \<noteq> S_exit)
         | _ \<Rightarrow> recvs (trace s) = [] \<and> serve s \<noteq> S_exit \<and>
                (watcher s = W_exit \<longrightarrow> shutdown_results es = [None])"
  using assms
proof (induction rule: Start_induct)
  case init
  show ?case by (simp add: init_def)
next
  case (step es s e s')
  from step.hyps(2) step.IH pc_inv[OF step.hyps(1)] serve_pc_inv[OF step.hyps(1)]
    watcher_pc_inv[OF step.hyps(1)] show ?case
    by (cases rule: step_cases) (auto simp: listenAndServe_serve_def split: main_pc.splits)
qed

lemma returned_by:
  assumes "Start a es = Some s" and "main s = M_return r"
  shows "(\<exists>v. recvs (trace s) = [(ServeLoop, v)] \<and> r = waitForServerToClose v \<and>
              serve s = S_exit \<and> serve_outcomes es = [v] \<and>
              (watcher s = W_exit \<longrightarrow> shutdown_results es = [None]))
       \<or> (\<exists>e. recvs (trace s) = [(Watcher, Some e)] \<and> r = waitForServerToClose (Some e) \<and>
              watcher s = W_exit \<and> shutdown_results es = [Some e] \<and> serve s \<noteq> S_exit)"
  using main_inv[OF assms(1)] assms(2) by simp

lemma not_returned:
  assumes "Start a es = Some s" and "\<forall>r. main s \<noteq> M_return r"
  shows "recvs (trace s) = [] \<and> serve s \<noteq> S_exit \<and>
         (watcher s = W_exit \<longrightarrow> shutdown_results es = [None])"
  using main_inv[OF assms(1)] assms(2) by (cases "main s") simp_all

text \<open>
  Once Start has returned nothing receives from \<open>shutdown\<close>: a goroutine at its send
  stays there, whatever happens next.
\<close>

lemma returned_stays:
  assumes "run a es' s = Some s'" and "main s = M_return r"
  shows "main s' = M_return r
       \<and> (\<forall>v. serve s = S_send v \<longrightarrow> serve s' = S_send v)
       \<and> (\<forall>e. watcher s = W_send e \<longrightarrow> watcher s' = W_send e)
       \<and> (serve s = S_exit \<longrightarrow> serve s' = S_exit)
       \<and> (watcher s = W_exit \<longrightarrow> watcher s' = W_exit)
       \<and> recvs (trace s') = recvs (trace s)"
  using assms
proof (induction es' arbitrary: s)
  case Nil
  then show ?case by simp
next
  case (Cons e es')
  from Cons.prems(1) obtain s1 where s1: "step a e s = Some s1" and r: "run a es' s1 = Some s'"
    by (auto split: option.splits)
  from s1 Cons.prems(2)
  have "main s1 = M_return r
       \<and> (\<forall>v. serve s = S_send v \<longrightarrow> serve s1 = S_send v)
       \<and> (\<forall>e. watcher s = W_send e \<longrightarrow> watcher s1 = W_send e)
       \<and> (serve s = S_exit \<longrightarrow> serve s1 = S_exit)
       \<and> (watcher s = W_exit \<longrightarrow> watcher s1 = W_exit)
       \<and> recvs (trace s1) = recvs (trace s)"
    by (cases rule: step_cases) (simp_all add: listenAndServe_serve_def)
  with Cons.IH[OF r] show ?case by simp
qed

text \<open>
  While Start has not returned, a serve goroutine at its send can hand its value over:
  the caller runs on to its receive and takes it.
\<close>

lemma serve_can_deliver:
  assumes "serve s = S_send v" and "main s = M_notifySignal \<or> main s = M_go_watcher \<or> main s = M_wait"
  shows "\<exists>es' s'. run a es' s = Some s' \<and> main s' = M_return (waitForServerToClose v) \<and>
           wakes es' = [] \<and> Signal \<notin> set es'"
proof -
  consider "main s = M_notifySignal" | "main s = M_go_watcher" | "main s = M_wait"
    using assms(2) by blast
  then show ?thesis
  proof cases
    case 1
    with assms(1) have "run a [MainStep, MainStep, Handoff ServeLoop] s \<noteq> None \<and>
        main (the (run a [MainStep, MainStep, Handoff ServeLoop] s)) = M_return (waitForServerToClose v)"
      by (simp add: step_defs)
    then show ?thesis
      by (intro exI[of _ "[MainStep, MainStep, Handoff ServeLoop]"]) auto
  next
    case 2
    with assms(1) have "run a [MainStep, Handoff ServeLoop] s \<noteq> None \<and>
        main (the (run a [MainStep, Handoff ServeLoop] s)) = M_return (waitForServerToClose v)"
      by (simp add: step_defs)
    then show ?thesis
      by (intro exI[of _ "[MainStep, Handoff ServeLoop]"]) auto
  next
    case 3
    with assms(1) have "run a [Handoff ServeLoop] s \<noteq> None \<and>
        main (the (run a [Handoff ServeLoop] s)) = M_return (waitForServerToClose v)"
      by (simp add: step_defs)
    then show ?thesis
      by (intro exI[of _ "[Handoff ServeLoop]"]) auto
  qed
qed




subsection \<open>strings.HasPrefix and strings.TrimPrefix\<close>

lemma HasPrefix_iff: "HasPrefix s pre \<longleftrightarrow> (\<exists>r. s = pre @ r)"
proof
  assume "HasPrefix s pre"
  then have "s = pre @ drop (length pre) s"
    by (metis HasPrefix_def append_take_drop_id)
  then show "\<exists>r. s = pre @ r" ..
next
  assume "\<exists>r. s = pre @ r"
  then show "HasPrefix s pre" by (auto simp: HasPrefix_def)
qed

lemma TrimPrefix_append: "TrimPrefix (pre @ r) pre = r"
  by (simp add: TrimPrefix_def HasPrefix_def)

subsection \<open>The example runs, evaluated\<close>

lemma bind_fails_run:
  "Start tcp_args bind_fails =
     Some \<lparr>main = M_return (Some bind_error), serve = S_exit, watcher = W_recv 2000000000,
            notified = True, interrupt = 0,
            trace = [Go ServeLoop, NetListen (Listener ''tcp'' ''127.0.0.1:0''),
                     Send ServeLoop (Some bind_error), NotifySignal, Go Watcher,
                     Recv ServeLoop (Some bind_error)]\<rparr>"
  by (simp add: run_defs tcp_args_def bind_fails_def bind_error_def)

lemma interrupt_then_timeout_run:
  "Start unix_args interrupt_then_timeout =
     Some \<lparr>main = M_return None, serve = S_exit, watcher = W_send DeadlineExceeded,
            notified = True, interrupt = 0,
            trace = [Go ServeLoop, NotifySignal, Go Watcher,
                     NetListen (Listener ''unix'' ''/tmp/svc.sock''),
                     LogInfo [(''addr'', ''unix:/tmp/svc.sock'')] ''Start HTTP'',
                     Serve (Server ''unix:/tmp/svc.sock'' (Router 0))
                       (Listener ''unix'' ''/tmp/svc.sock''),
                     LogInfo [] ''Received interrupt. Shutting down...'',
                     ServerShutdown (Server ''unix:/tmp/svc.sock'' (Router 0))
                       (Context 2000000100),
                     Send ServeLoop (Some ErrServerClosed),
                     Recv ServeLoop (Some ErrServerClosed),
                     Send Watcher (Some DeadlineExceeded)]\<rparr>"
  by (simp add: run_defs unix_args_def interrupt_then_timeout_def)

lemma serve_fails_run:
  "Start tls_args serve_fails =
     Some \<lparr>main = M_wait, serve = S_send (Some (ErrorString ''accept: too many open files'')),
            watcher = W_recv 2000000000, notified = True, interrupt = 0,
            trace = [Go ServeLoop, NotifySignal, Go Watcher,
                     NetListen (Listener ''tcp'' ''127.0.0.1:5050''),
                     LogInfo [(''addr'', ''127.0.0.1:5050'')] ''Start HTTP with tls'',
                     ServeTLS (Server ''127.0.0.1:5050'' (Router 0))
                       (Listener ''tcp'' ''127.0.0.1:5050'') ''server.crt'' [],
                     Send ServeLoop (Some (ErrorString ''accept: too many open files''))]\<rparr>"
  by (simp add: run_defs tls_args_def serve_fails_def)

lemma first_interrupt_run:
  "Start unix_args first_interrupt =
     Some \<lparr>main = M_wait, serve = S_serving, watcher = W_shutdown,
            notified = True, interrupt = 0,
            trace = [Go ServeLoop, NotifySignal, Go Watcher,
                     NetListen (Listener ''unix'' ''/tmp/svc.sock''),
                     LogInfo [(''addr'', ''unix:/tmp/svc.sock'')] ''Start HTTP'',
                     Serve (Server ''unix:/tmp/svc.sock'' (Router 0))
                       (Listener ''unix'' ''/tmp/svc.sock''),
                     LogInfo [] ''Received interrupt. Shutting down...'',
                     ServerShutdown (Server ''unix:/tmp/svc.sock'' (Router 0))
                       (Context 2000000100)]\<rparr>"
  by (simp add: run_defs unix_args_def first_interrupt_def)

lemma more_interrupts_run:
  "Start unix_args (first_interrupt @ more_interrupts) =
     Some \<lparr>main = M_wait, serve = S_serving, watcher = W_exit,
            notified = True, interrupt = 1,
            trace = [Go ServeLoop, NotifySignal, Go Watcher,
                     NetListen (Listener ''unix'' ''/tmp/svc.sock''),
                     LogInfo [(''addr'', ''unix:/tmp/svc.sock'')] ''Start HTTP'',
                     Serve (Server ''unix:/tmp/svc.sock'' (Router 0))
                       (Listener ''unix'' ''/tmp/svc.sock''),
                     LogInfo [] ''Received interrupt. Shutting down...'',
                     ServerShutdown (Server ''unix:/tmp/svc.sock'' (Router 0))
                       (Context 2000000100),
                     Cancel]\<rparr>"
  by (simp add: run_defs unix_args_def first_interrupt_def more_interrupts_def)


section \<open>The claims\<close>

subsection \<open>C1: what waitForServerToClose returns\<close>

text \<open>
  Claim C1, as amended. When Start has returned, waitForServerToClose has received
  exactly one value on the channel; it returns no error exactly when that value is
  http.ErrServerClosed or nil, and every value other than http.ErrServerClosed is
  returned as it is.
\<close>

theorem C1_wait_returns:
  assumes "Start a es = Some s" and "main s = M_return r"
  shows "\<exists>g v. recvs (trace s) = [(g, v)] \<and> r = waitForServerToClose v \<and>
           (r = None \<longleftrightarrow> v = Some ErrServerClosed \<or> v = None) \<and>
           (v \<noteq> Some ErrServerClosed \<longrightarrow> r = v)"
proof -
  from main_inv[OF assms(1)] assms(2)
  obtain g v where gv: "recvs (trace s) = [(g, v)]" "r = waitForServerToClose v"
    by auto
  have "(waitForServerToClose v = None \<longleftrightarrow> v = Some ErrServerClosed \<or> v = None) \<and>
        (v \<noteq> Some ErrServerClosed \<longrightarrow> waitForServerToClose v = v)"
    by (simp add: waitForServerToClose_def)
  with gv show ?thesis by (intro exI[of _ g] exI[of _ v]) simp
qed

text \<open>
  The run in which net.Listen fails: the bind error is the one value received and is
  what Start returns.
\<close>

theorem C1_wait_returns_witness:
  "\<exists>s. Start tcp_args bind_fails = Some s \<and> main s = M_return (Some bind_error) \<and>
        recvs (trace s) = [(ServeLoop, Some bind_error)] \<and>
        waitForServerToClose (Some bind_error) = Some bind_error"
  using C1_wait_returns[OF bind_fails_run, of "Some bind_error"]
  by (simp add: bind_fails_run waitForServerToClose_def bind_error_def)

text \<open>
  As first stated (no error exactly when the value received is http.ErrServerClosed) C1
  fails for nil: received nil is returned as nil, which is no error, and nil is not the
  sentinel.
\<close>

theorem C1_counterexample:
  "\<not> (waitForServerToClose None = None \<longleftrightarrow> (None :: error option) = Some ErrServerClosed)"
  by (simp add: waitForServerToClose_def)

subsection \<open>C2: a failing bind\<close>

text \<open>
  Claim C2, as amended. When net.Listen fails with error e: the call is made by the
  serve goroutine, after the go statement that starts it (the first entry of the trace);
  e is what that goroutine sends on the channel, and it never calls Serve or ServeTLS; if
  the receive of waitForServerToClose takes a value of the serve goroutine, the value is e
  and Start returns waitForServerToClose of e; as long as Start has not returned, the
  schedule can be continued so that it returns exactly that; and by the time Start has
  returned, the subscription to the interrupt is made and the watcher is started.
\<close>

theorem C2_bind_error_through_channel:
  assumes "Start a es = Some s" and "ListenReturns (Some e) \<in> set es"
  shows "(\<exists>tr. trace s = Go ServeLoop # tr \<and> NetListen (listenAndServe_listen (address a)) \<in> set tr)
       \<and> sends ServeLoop (trace s) = [Some e]
       \<and> serving_calls (trace s) = []
       \<and> (\<forall>v. Recv ServeLoop v \<in> set (trace s) \<longrightarrow>
             v = Some e \<and> main s = M_return (waitForServerToClose (Some e)))
       \<and> ((\<forall>r. main s \<noteq> M_return r) \<longrightarrow>
            (\<exists>es' s'. Start a (es @ es') = Some s' \<and>
               main s' = M_return (waitForServerToClose (Some e))))
       \<and> ((\<exists>r. main s = M_return r) \<longrightarrow> notified s \<and> watcher s \<noteq> W_idle)"
proof -
  from assms(2) have le: "Some e \<in> set (listen_results es)" by (simp add: proj_set)
  with listen_error_inv[OF assms(1)] have out: "serve_outcomes es = [Some e]" by simp
  from le at_most_one_listen[OF assms(1)] have lr: "listen_results es = [Some e]"
    by (cases "listen_results es") auto
  from out outcome_pc[OF assms(1)] have pc: "serve s = S_send (Some e) \<or> serve s = S_exit"
    by auto
  with pc_inv[OF assms(1)] have nm: "main s \<noteq> M_startServer" by auto
  have 1: "\<exists>tr. trace s = Go ServeLoop # tr \<and> NetListen (listenAndServe_listen (address a)) \<in> set tr"
  proof -
    from trace_head_inv[OF assms(1)] nm obtain tr where tr: "trace s = Go ServeLoop # tr" by auto
    from listen_calls_inv[OF assms(1)] lr
    have "listenAndServe_listen (address a) \<in> set (listen_calls (trace s))" by simp
    then have "NetListen (listenAndServe_listen (address a)) \<in> set (trace s)" by (simp add: proj_set)
    with tr show ?thesis by simp
  qed
  have 2: "sends ServeLoop (trace s) = [Some e]"
    using sends_serve_inv[OF assms(1)] out by simp
  have 3: "serving_calls (trace s) = []"
    using serving_calls_inv[OF assms(1)] lr by simp
  have 4: "\<forall>v. Recv ServeLoop v \<in> set (trace s) \<longrightarrow>
             v = Some e \<and> main s = M_return (waitForServerToClose (Some e))"
  proof (intro allI impI)
    fix v assume "Recv ServeLoop v \<in> set (trace s)"
    then have rv: "(ServeLoop, v) \<in> set (recvs (trace s))" by (simp add: proj_set)
    show "v = Some e \<and> main s = M_return (waitForServerToClose (Some e))"
    proof (cases "\<exists>r. main s = M_return r")
      case True
      then obtain r where r: "main s = M_return r" ..
      from returned_by[OF assms(1) r] rv out r show ?thesis by auto
    next
      case False
      with not_returned[OF assms(1)] rv show ?thesis by simp
    qed
  qed
  have 5: "(\<forall>r. main s \<noteq> M_return r) \<longrightarrow>
            (\<exists>es' s'. Start a (es @ es') = Some s' \<and>
               main s' = M_return (waitForServerToClose (Some e)))"
  proof
    assume nr: "\<forall>r. main s \<noteq> M_return r"
    with not_returned[OF assms(1)] pc have sp: "serve s = S_send (Some e)" by simp
    from nr nm have "main s = M_notifySignal \<or> main s = M_go_watcher \<or> main s = M_wait"
      by (cases "main s") simp_all
    from serve_can_deliver[OF sp this, of a] obtain es' s' where
      "run a es' s = Some s'" "main s' = M_return (waitForServerToClose (Some e))" by blast
    with assms(1) have "Start a (es @ es') = Some s' \<and> main s' = M_return (waitForServerToClose (Some e))"
      by (simp add: Start_def run_append)
    then show "\<exists>es' s'. Start a (es @ es') = Some s' \<and>
               main s' = M_return (waitForServerToClose (Some e))" by blast
  qed
  have 6: "(\<exists>r. main s = M_return r) \<longrightarrow> notified s \<and> watcher s \<noteq> W_idle"
    using pc_inv[OF assms(1)] by auto
  from 1 2 3 4 5 6 show ?thesis by blast
qed

theorem C2_bind_error_through_channel_witness:
  "ListenReturns (Some bind_error) \<in> set bind_fails
   \<and> map_option (\<lambda>s. sends ServeLoop (trace s)) (Start tcp_args bind_fails) = Some [Some bind_error]
   \<and> map_option (\<lambda>s. serving_calls (trace s)) (Start tcp_args bind_fails) = Some []
   \<and> map_option main (Start tcp_args bind_fails) = Some (M_return (Some bind_error))"
proof -
  have m: "ListenReturns (Some bind_error) \<in> set bind_fails" by (simp add: bind_fails_def)
  have w: "waitForServerToClose (Some bind_error) = Some bind_error"
    by (simp add: waitForServerToClose_def bind_error_def)
  from C2_bind_error_through_channel[OF bind_fails_run m] m w show ?thesis
    by (simp add: bind_fails_run)
qed

text \<open>
  As first stated (the bind error is returned synchronously, before any background
  activity, and never through the channel) C2 fails: with an occupied TCP address the
  serve goroutine is started first, net.Listen fails inside it, the subscription and the
  watcher are started as well, and Start returns the bind error only by receiving it from
  the channel.
\<close>

theorem C2_counterexample:
  "Start tcp_args bind_fails =
     Some \<lparr>main = M_return (Some bind_error), serve = S_exit, watcher = W_recv 2000000000,
            notified = True, interrupt = 0,
            trace = [Go ServeLoop, NetListen (Listener ''tcp'' ''127.0.0.1:0''),
                     Send ServeLoop (Some bind_error), NotifySignal, Go Watcher,
                     Recv ServeLoop (Some bind_error)]\<rparr>"
  by (rule bind_fails_run)

subsection \<open>C3: two senders, one receive\<close>

text \<open>
  Claim C3, as amended. When both goroutines have reached their send on the channel and
  Start has returned, then in every continuation of the run Start stays returned, nothing
  more is received, and the goroutine whose value was not taken is still at its send: the
  watcher if the serve goroutine's value was received, the serve goroutine if the
  watcher's was.
\<close>

theorem C3_loser_stays_blocked:
  assumes "Start a es = Some s"
    and "sends ServeLoop (trace s) \<noteq> []" and "sends Watcher (trace s) \<noteq> []"
    and "main s = M_return r" and "run a es' s = Some s'"
  shows "main s' = M_return r \<and> recvs (trace s') = recvs (trace s) \<and>
         ((\<exists>v e. recvs (trace s) = [(ServeLoop, v)] \<and> serve s' = S_exit \<and>
                 watcher s' = W_send e \<and> sends Watcher (trace s) = [Some e])
        \<or> (\<exists>v e. recvs (trace s) = [(Watcher, Some e)] \<and> watcher s' = W_exit \<and>
                 serve s' = S_send v \<and> sends ServeLoop (trace s) = [v]))"
proof -
  from assms(2) sends_serve_inv[OF assms(1)] have "serve_outcomes es \<noteq> []" by simp
  from outcome_pc[OF assms(1) this] obtain v where
    v: "serve_outcomes es = [v]" "serve s = S_send v \<or> serve s = S_exit" by blast
  from assms(3) sends_watcher_inv[OF assms(1)]
  have ne: "filter (\<lambda>r. r \<noteq> None) (shutdown_results es) \<noteq> []" by simp
  with watcher_pc_inv[OF assms(1)]
  have "\<exists>e. shutdown_results es = [Some e] \<and> (watcher s = W_send e \<or> watcher s = W_exit)"
  proof (cases "watcher s")
    case W_exit
    with watcher_pc_inv[OF assms(1)] have "length (shutdown_results es) = 1" by simp
    with ne W_exit show ?thesis by (cases "shutdown_results es") (auto split: if_splits)
  qed auto
  then obtain e where
    e: "shutdown_results es = [Some e]" "watcher s = W_send e \<or> watcher s = W_exit" by blast
  from returned_stays[OF assms(5) assms(4)]
  have st: "main s' = M_return r" "recvs (trace s') = recvs (trace s)"
    "\<And>v. serve s = S_send v \<Longrightarrow> serve s' = S_send v"
    "\<And>e. watcher s = W_send e \<Longrightarrow> watcher s' = W_send e"
    "serve s = S_exit \<Longrightarrow> serve s' = S_exit"
    "watcher s = W_exit \<Longrightarrow> watcher s' = W_exit"
    by simp_all
  from returned_by[OF assms(1) assms(4)]
  show ?thesis
  proof
    assume "\<exists>v. recvs (trace s) = [(ServeLoop, v)] \<and> r = waitForServerToClose v \<and>
              serve s = S_exit \<and> serve_outcomes es = [v] \<and>
              (watcher s = W_exit \<longrightarrow> shutdown_results es = [None])"
    then obtain v' where a: "recvs (trace s) = [(ServeLoop, v')]" "serve s = S_exit"
      "watcher s = W_exit \<longrightarrow> shutdown_results es = [None]" by blast
    with e have w: "watcher s = W_send e" by auto
    have "sends Watcher (trace s) = [Some e]" using sends_watcher_inv[OF assms(1)] e(1) by simp
    with a w st show ?thesis by blast
  next
    assume "\<exists>e. recvs (trace s) = [(Watcher, Some e)] \<and> r = waitForServerToClose (Some e) \<and>
              watcher s = W_exit \<and> shutdown_results es = [Some e] \<and> serve s \<noteq> S_exit"
    then obtain e' where a: "recvs (trace s) = [(Watcher, Some e')]" "watcher s = W_exit"
      "serve s \<noteq> S_exit" by blast
    with v have w: "serve s = S_send v" by auto
    have "sends ServeLoop (trace s) = [v]" using sends_serve_inv[OF assms(1)] v(1) by simp
    with a w st show ?thesis by blast
  qed
qed

theorem C3_loser_stays_blocked_witness:
  "map_option (\<lambda>s. (sends ServeLoop (trace s), sends Watcher (trace s), main s))
      (Start unix_args interrupt_then_timeout)
     = Some ([Some ErrServerClosed], [Some DeadlineExceeded], M_return None)
   \<and> map_option (\<lambda>s. (main s, serve s, watcher s))
      (Start unix_args (interrupt_then_timeout @ [Signal, Signal]))
     = Some (M_return None, S_exit, W_send DeadlineExceeded)"
proof -
  obtain s where s: "Start unix_args interrupt_then_timeout = Some s"
    and m: "main s = M_return None" and n: "notified s"
    and a: "sends ServeLoop (trace s) = [Some ErrServerClosed]"
    and b: "sends Watcher (trace s) = [Some DeadlineExceeded]"
    and c: "recvs (trace s) = [(ServeLoop, Some ErrServerClosed)]"
    using interrupt_then_timeout_run by simp
  from n have "run unix_args [Signal, Signal] s \<noteq> None"
    by (simp add: signal_def)
  then obtain s' where r: "run unix_args [Signal, Signal] s = Some s'" by blast
  from a b have a': "sends ServeLoop (trace s) \<noteq> []" and b': "sends Watcher (trace s) \<noteq> []"
    by simp_all
  from C3_loser_stays_blocked[OF s a' b' m r] b c
  have "main s' = M_return None \<and> serve s' = S_exit \<and> watcher s' = W_send DeadlineExceeded"
    by auto
  with s m a b r show ?thesis by (simp add: Start_append[OF s])
qed

text \<open>
  As first stated (the sender whose value is not consumed never stays blocked) C3 fails:
  an interrupt arrives, Serve returns http.ErrServerClosed and Start receives it and
  returns nil; serverShutdown then runs into its deadline and the watcher reaches
  \<open>shutdown <- err\<close> with nobody left to receive. The communication with the watcher is
  not enabled in that state.
\<close>

theorem C3_counterexample:
  "Start unix_args interrupt_then_timeout =
     Some \<lparr>main = M_return None, serve = S_exit, watcher = W_send DeadlineExceeded,
            notified = True, interrupt = 0,
            trace = [Go ServeLoop, NotifySignal, Go Watcher,
                     NetListen (Listener ''unix'' ''/tmp/svc.sock''),
                     LogInfo [(''addr'', ''unix:/tmp/svc.sock'')] ''Start HTTP'',
                     Serve (Server ''unix:/tmp/svc.sock'' (Router 0))
                       (Listener ''unix'' ''/tmp/svc.sock''),
                     LogInfo [] ''Received interrupt. Shutting down...'',
                     ServerShutdown (Server ''unix:/tmp/svc.sock'' (Router 0))
                       (Context 2000000100),
                     Send ServeLoop (Some ErrServerClosed),
                     Recv ServeLoop (Some ErrServerClosed),
                     Send Watcher (Some DeadlineExceeded)]\<rparr>
   \<and> Start unix_args (interrupt_then_timeout @ [Handoff Watcher]) = None"
  using interrupt_then_timeout_run
  by (simp add: Start_def run_append handoff_def)

subsection \<open>C4: plain or TLS\<close>

text \<open>
  Claim C4. The calls of Serve and ServeTLS in the trace are: none while net.Listen has
  not succeeded; after that exactly one, which is Serve on the bound listener when cert
  and key are both empty, and ServeTLS on it with the given cert and key when at least one
  of them is not empty.
\<close>

theorem C4_serve_mode:
  assumes "Start a es = Some s"
  shows "serving_calls (trace s) =
           (if ListenReturns None \<in> set es
            then [if cert a = [] \<and> key a = []
                  then Serve (new_server a) (listenAndServe_listen (address a))
                  else ServeTLS (new_server a) (listenAndServe_listen (address a)) (cert a) (key a)]
            else [])"
  using serving_calls_inv[OF assms] by (auto simp: proj_set)

theorem C4_serve_mode_witness:
  "map_option (\<lambda>s. serving_calls (trace s)) (Start tls_args serve_fails)
     = Some [ServeTLS (Server ''127.0.0.1:5050'' (Router 0))
               (Listener ''tcp'' ''127.0.0.1:5050'') ''server.crt'' []]
   \<and> map_option (\<lambda>s. serving_calls (trace s)) (Start unix_args first_interrupt)
     = Some [Serve (Server ''unix:/tmp/svc.sock'' (Router 0))
               (Listener ''unix'' ''/tmp/svc.sock'')]"
  using C4_serve_mode[OF serve_fails_run] C4_serve_mode[OF first_interrupt_run]
  by (simp add: serve_fails_run first_interrupt_run)

subsection \<open>C5: the listener\<close>

text \<open>
  Claim C5. net.Listen is called once for each answer the schedule gives it, which is
  at most once. When the address is \<open>unix:\<close> followed by p, the call asks for a unix
  listener at p; when the address does not start with \<open>unix:\<close>, it asks for a tcp
  listener at the address itself.
\<close>

theorem C5_listener:
  assumes "Start a es = Some s"
  shows "(\<forall>p. address a = ''unix:'' @ p \<longrightarrow>
            listen_calls (trace s) = replicate (length (listen_results es)) (Listener ''unix'' p))
       \<and> ((\<forall>p. address a \<noteq> ''unix:'' @ p) \<longrightarrow>
            listen_calls (trace s) = replicate (length (listen_results es)) (Listener ''tcp'' (address a)))
       \<and> length (listen_results es) \<le> 1"
proof (intro conjI allI impI)
  fix p assume "address a = ''unix:'' @ p"
  then have "listenAndServe_listen (address a) = Listener ''unix'' p"
    unfolding listenAndServe_listen_def using HasPrefix_iff[of "address a" "''unix:''"]
      TrimPrefix_append[of "''unix:''" p] by auto
  with listen_calls_inv[OF assms]
  show "listen_calls (trace s) = replicate (length (listen_results es)) (Listener ''unix'' p)"
    by (simp add: map_replicate_const)
next
  assume "\<forall>p. address a \<noteq> ''unix:'' @ p"
  then have "listenAndServe_listen (address a) = Listener ''tcp'' (address a)"
    unfolding listenAndServe_listen_def using HasPrefix_iff[of "address a" "''unix:''"] by auto
  with listen_calls_inv[OF assms]
  show "listen_calls (trace s) = replicate (length (listen_results es)) (Listener ''tcp'' (address a))"
    by (simp add: map_replicate_const)
next
  show "length (listen_results es) \<le> 1" by (rule at_most_one_listen[OF assms])
qed

theorem C5_listener_witness:
  "map_option (\<lambda>s. listen_calls (trace s)) (Start unix_args first_interrupt)
     = Some [Listener ''unix'' ''/tmp/svc.sock'']
   \<and> map_option (\<lambda>s. listen_calls (trace s)) (Start tcp_args bind_fails)
     = Some [Listener ''tcp'' ''127.0.0.1:0'']"
  using C5_listener[OF first_interrupt_run] C5_listener[OF bind_fails_run]
  by (simp add: first_interrupt_run bind_fails_run)

subsection \<open>C6: what the watcher writes to the channel\<close>




subsection \<open>C7: no shutdown without an interrupt\<close>

text \<open>
  Claim C7. serverShutdown is called only in runs in which an interrupt has been raised
  (this holds after each event of a run, so the interrupt comes first). In a run without
  an interrupt: if Start has returned, it returned waitForServerToClose of the one value
  listenAndServe returned; and if Serve has returned an error e other than
  http.ErrServerClosed, the run can be continued so that Start returns e itself, still
  without any call of serverShutdown.
\<close>

theorem C7_shutdown_only_after_interrupt:
  assumes "Start a es = Some s"
  shows "(shutdown_calls (trace s) \<noteq> [] \<longrightarrow> Signal \<in> set es)
       \<and> (Signal \<notin> set es \<longrightarrow>
            (\<forall>r. main s = M_return r \<longrightarrow>
               (\<exists>v. serve_outcomes es = [v] \<and> r = waitForServerToClose v)))
       \<and> (Signal \<notin> set es \<and> ServeReturns (Some e) \<in> set es \<and> e \<noteq> ErrServerClosed \<longrightarrow>
            (\<exists>es' s'. Start a (es @ es') = Some s' \<and> main s' = M_return (Some e) \<and>
               shutdown_calls (trace s') = []))"
proof (intro conjI impI allI)
  assume "shutdown_calls (trace s) \<noteq> []"
  with shutdown_calls_inv[OF assms] have "wakes es \<noteq> []" by auto
  with signal_inv[OF assms] show "Signal \<in> set es" by simp
next
  fix r assume ns: "Signal \<notin> set es" and r: "main s = M_return r"
  from ns signal_inv[OF assms] have "wakes es = []" by auto
  with watcher_pc_inv[OF assms] have "watcher s \<noteq> W_exit" by (cases "watcher s") simp_all
  with returned_by[OF assms r]
  show "\<exists>v. serve_outcomes es = [v] \<and> r = waitForServerToClose v" by auto
next
  assume h: "Signal \<notin> set es \<and> ServeReturns (Some e) \<in> set es \<and> e \<noteq> ErrServerClosed"
  then have ns: "Signal \<notin> set es" and sr: "ServeReturns (Some e) \<in> set es"
    and ne: "e \<noteq> ErrServerClosed" by simp_all
  from ns signal_inv[OF assms] have w0: "wakes es = []" by auto
  with watcher_pc_inv[OF assms] have wne: "watcher s \<noteq> W_exit" by (cases "watcher s") simp_all
  from sr have mem: "Some e \<in> set (serve_outcomes es)" by (simp add: outcome_set)
  then have "serve_outcomes es \<noteq> []" by auto
  from outcome_pc[OF assms this] obtain v where
    v: "serve_outcomes es = [v]" "serve s = S_send v \<or> serve s = S_exit" by blast
  with mem have ve: "v = Some e" by simp
  from ne have wv: "waitForServerToClose (Some e) = Some e" by (simp add: waitForServerToClose_def)
  show "\<exists>es' s'. Start a (es @ es') = Some s' \<and> main s' = M_return (Some e) \<and>
               shutdown_calls (trace s') = []"
  proof (cases "\<exists>r. main s = M_return r")
    case True
    then obtain r where r: "main s = M_return r" ..
    from returned_by[OF assms r] wne v(1) ve wv have "main s = M_return (Some e)"
      using r by auto
    moreover have "shutdown_calls (trace s) = []" using shutdown_calls_inv[OF assms] w0 by simp
    ultimately have "Start a (es @ []) = Some s \<and> main s = M_return (Some e) \<and>
               shutdown_calls (trace s) = []" using assms by simp
    then show ?thesis by blast
  next
    case False
    then have nr: "\<forall>r. main s \<noteq> M_return r" by simp
    with not_returned[OF assms] v(2) ve have sp: "serve s = S_send (Some e)" by simp
    with pc_inv[OF assms] have "main s \<noteq> M_startServer" by auto
    with nr have "main s = M_notifySignal \<or> main s = M_go_watcher \<or> main s = M_wait"
      by (cases "main s") simp_all
    from serve_can_deliver[OF sp this, of a] obtain es' s' where
      c: "run a es' s = Some s'" "main s' = M_return (waitForServerToClose (Some e))"
         "wakes es' = []" by blast
    from c(1) assms have st: "Start a (es @ es') = Some s'" by (simp add: Start_def run_append)
    from shutdown_calls_inv[OF st] w0 c(3) have "shutdown_calls (trace s') = []" by simp
    with st c(2) wv show ?thesis by auto
  qed
qed

theorem C7_shutdown_only_after_interrupt_witness:
  "Signal \<notin> set serve_fails
   \<and> ServeReturns (Some (ErrorString ''accept: too many open files'')) \<in> set serve_fails
   \<and> (\<exists>es' s'. Start tls_args (serve_fails @ es') = Some s' \<and>
         main s' = M_return (Some (ErrorString ''accept: too many open files'')) \<and>
         shutdown_calls (trace s') = [])
   \<and> Signal \<in> set first_interrupt
   \<and> map_option (\<lambda>s. shutdown_calls (trace s) \<noteq> []) (Start unix_args first_interrupt) = Some True"
proof -
  have m1: "Signal \<notin> set serve_fails"
    and m2: "ServeReturns (Some (ErrorString ''accept: too many open files'')) \<in> set serve_fails"
    by (simp_all add: serve_fails_def)
  have m3: "Signal \<in> set first_interrupt" by (simp add: first_interrupt_def)
  have m4: "map_option (\<lambda>s. shutdown_calls (trace s) \<noteq> []) (Start unix_args first_interrupt) = Some True"
    by (simp add: first_interrupt_run)
  from C7_shutdown_only_after_interrupt[OF serve_fails_run,
      of "ErrorString ''accept: too many open files''"] m1 m2
  have "\<exists>es' s'. Start tls_args (serve_fails @ es') = Some s' \<and>
         main s' = M_return (Some (ErrorString ''accept: too many open files'')) \<and>
         shutdown_calls (trace s') = []" by simp
  with m1 m2 m3 m4 show ?thesis by blast
qed

subsection \<open>C8: the grace period\<close>

text \<open>
  Claim C8. Every call of serverShutdown is made on the server of startServer with a
  context whose deadline is the time at which the watcher took the signal plus
  2000000000 nanoseconds, one call for each such time.
\<close>

theorem C8_grace_period:
  assumes "Start a es = Some s"
  shows "shutdown_calls (trace s) = map (\<lambda>t. (new_server a, Context (t + 2000000000))) (wakes es)"
  using shutdown_calls_inv[OF assms] by (simp add: context_WithTimeout_def Second_def)

theorem C8_grace_period_witness:
  "map_option (\<lambda>s. shutdown_calls (trace s)) (Start unix_args first_interrupt)
     = Some [(Server ''unix:/tmp/svc.sock'' (Router 0), Context 2000000100)]
   \<and> wakes first_interrupt = [100]"
proof -
  have w: "wakes first_interrupt = [100]" by (simp add: first_interrupt_def)
  have n: "new_server unix_args = Server ''unix:/tmp/svc.sock'' (Router 0)"
    by (simp add: new_server_def unix_args_def)
  from C8_grace_period[OF first_interrupt_run] w n show ?thesis
    by (simp add: first_interrupt_run)
qed

subsection \<open>C9: the watcher acts once\<close>

text \<open>
  Claim C9. In every run the watcher takes at most one signal, serverShutdown is called
  at most once, and the watcher reaches its send at most once. Once the watcher has taken
  a signal, nothing that follows makes it take another, and the calls of serverShutdown
  stay what they were, whatever interrupts follow.
\<close>

theorem C9_one_shot:
  assumes "Start a (es @ es') = Some s'"
  shows "length (wakes (es @ es')) \<le> 1 \<and> length (shutdown_calls (trace s')) \<le> 1
       \<and> length (sends Watcher (trace s')) \<le> 1
       \<and> (wakes es \<noteq> [] \<longrightarrow> wakes es' = [] \<and>
            (\<forall>s. Start a es = Some s \<longrightarrow> shutdown_calls (trace s') = shutdown_calls (trace s)))"
proof -
  have w: "length (wakes (es @ es')) \<le> 1" and r: "length (shutdown_results (es @ es')) \<le> 1"
    using at_most_one_wake[OF assms] by simp_all
  have c: "length (shutdown_calls (trace s')) \<le> 1"
    using w shutdown_calls_inv[OF assms] by simp
  have "length (filter (\<lambda>r. r \<noteq> None) (shutdown_results (es @ es'))) \<le> length (shutdown_results (es @ es'))"
    by (rule length_filter_le)
  with r have d: "length (sends Watcher (trace s')) \<le> 1"
    using sends_watcher_inv[OF assms] by simp
  have e: "wakes es \<noteq> [] \<longrightarrow> wakes es' = [] \<and>
            (\<forall>s. Start a es = Some s \<longrightarrow> shutdown_calls (trace s') = shutdown_calls (trace s))"
  proof (intro impI conjI allI)
    assume ne: "wakes es \<noteq> []"
    with w show w': "wakes es' = []" by (cases "wakes es") auto
    fix s assume "Start a es = Some s"
    from shutdown_calls_inv[OF this] shutdown_calls_inv[OF assms] w'
    show "shutdown_calls (trace s') = shutdown_calls (trace s)" by simp
  qed
  from w c d e show ?thesis by blast
qed

theorem C9_one_shot_witness:
  "wakes first_interrupt = [100] \<and> wakes more_interrupts = []
   \<and> Signal \<in> set more_interrupts
   \<and> map_option (\<lambda>s. shutdown_calls (trace s)) (Start unix_args (first_interrupt @ more_interrupts))
     = map_option (\<lambda>s. shutdown_calls (trace s)) (Start unix_args first_interrupt)
   \<and> map_option (\<lambda>s. length (shutdown_calls (trace s))) (Start unix_args (first_interrupt @ more_interrupts))
     = Some 1"
proof -
  have w: "wakes first_interrupt = [100]" by (simp add: first_interrupt_def)
  have m: "Signal \<in> set more_interrupts" by (simp add: more_interrupts_def)
  from C9_one_shot[OF more_interrupts_run] w
  have "wakes more_interrupts = []" by simp
  with w m show ?thesis by (simp add: first_interrupt_run more_interrupts_run)
qed

subsection \<open>C10: the sentinel is compared by identity\<close>

text \<open>
  Claim C10. waitForServerToClose returns no error only for http.ErrServerClosed itself
  or nil. An error that wraps http.ErrServerClosed, or whose text is the same, but which
  is another value, is returned as it is.
\<close>

theorem C10_identity_only:
  "(waitForServerToClose v = None \<longleftrightarrow> v = Some ErrServerClosed \<or> v = None)
   \<and> ((errors_Is e ErrServerClosed \<or> Error_text e = Error_text ErrServerClosed)
        \<and> e \<noteq> ErrServerClosed \<longrightarrow> waitForServerToClose (Some e) = Some e)"
  by (simp add: waitForServerToClose_def)

theorem C10_identity_only_witness:
  "errors_Is (WrapError ''serve'' ErrServerClosed) ErrServerClosed
   \<and> waitForServerToClose (Some (WrapError ''serve'' ErrServerClosed)) =
       Some (WrapError ''serve'' ErrServerClosed)
   \<and> Error_text (ErrorString ''http: Server closed'') = Error_text ErrServerClosed
   \<and> waitForServerToClose (Some (ErrorString ''http: Server closed'')) =
       Some (ErrorString ''http: Server closed'')"
  using C10_identity_only[of "Some ErrServerClosed" "WrapError ''serve'' ErrServerClosed"]
    C10_identity_only[of "Some ErrServerClosed" "ErrorString ''http: Server closed''"]
  by simp

end
